theory Spec2Isabelle
  imports Complex_Main "HOL-Library.Sublist"
begin

section \<open>Regular expressions as the normaliser uses them\<close>

text \<open>
  \<^verbatim>\<open>simplify\<close> rewrites its input with three patterns of Python's \<^verbatim>\<open>re\<close> module.
  The patterns are kept as syntax trees, and \<^verbatim>\<open>re\<close>'s backtracking matcher is the
  function \<open>matches\<close>: it returns, in the order the matcher tries them, the remainders
  of the subject after every way the pattern can match at its start. The first
  remainder is the match \<^verbatim>\<open>re\<close> reports: alternatives are tried left to right, an optional
  item and a star are greedy, and \<^verbatim>\<open>.\<close> matches every character but the line feed.
\<close>

datatype regex =
    Eps
  | Lit char
  | Dot
  | In "char list"
  | NotIn "char list"
  | Seq regex regex
  | Alt regex regex
  | Opt regex
  | Star regex

function matches :: "regex \<Rightarrow> string \<Rightarrow> string list" where
  "matches Eps s = [s]"
| "matches (Lit c) s = (case s of [] \<Rightarrow> [] | x # xs \<Rightarrow> if x = c then [xs] else [])"
| "matches Dot s = (case s of [] \<Rightarrow> [] | x # xs \<Rightarrow> if x \<noteq> CHR 0x0A then [xs] else [])"
| "matches (In cs) s = (case s of [] \<Rightarrow> [] | x # xs \<Rightarrow> if x \<in> set cs then [xs] else [])"
| "matches (NotIn cs) s = (case s of [] \<Rightarrow> [] | x # xs \<Rightarrow> if x \<notin> set cs then [xs] else [])"
| "matches (Seq a b) s = concat (map (matches b) (matches a s))"
| "matches (Alt a b) s = matches a s @ matches b s"
| "matches (Opt a) s = matches a s @ [s]"
| "matches (Star a) s =
     concat (map (matches (Star a)) (filter (\<lambda>t. length t < length s) (matches a s))) @ [s]"
  by pat_completeness auto
termination
  by (relation "measures [\<lambda>(r, s). size r, \<lambda>(r, s). length s]") auto

declare matches.simps(9) [simp del]

text \<open>
  \<^verbatim>\<open>re.compile(k).sub(v, s)\<close>: scan \<open>s\<close> from the left; where the pattern matches, emit the
  replacement and go on behind the match; elsewhere copy one character. An empty
  match emits the replacement and copies the character it stands before.
\<close>

function re_sub :: "regex \<Rightarrow> string \<Rightarrow> string \<Rightarrow> string" where
  "re_sub r repl s =
     (case matches r s of
        t # _ \<Rightarrow>
          (if length t < length s then repl @ re_sub r repl t
           else (case s of [] \<Rightarrow> repl | c # cs \<Rightarrow> repl @ c # re_sub r repl cs))
      | [] \<Rightarrow> (case s of [] \<Rightarrow> [] | c # cs \<Rightarrow> c # re_sub r repl cs))"
  by pat_completeness auto
termination
  by (relation "measure (\<lambda>(r, repl, s). length s)") auto

declare re_sub.simps [simp del]

text \<open>A literal word, and an alternation of several patterns.\<close>

fun word_rx :: "string \<Rightarrow> regex" where
  "word_rx [] = Eps"
| "word_rx (c # cs) = Seq (Lit c) (word_rx cs)"

fun alts :: "regex list \<Rightarrow> regex" where
  "alts [] = In []"
| "alts [r] = r"
| "alts (r # rs) = Alt r (alts rs)"

section \<open>The normaliser\<close>

text \<open>
  \<^verbatim>\<open>str.replace(old, new)\<close>: every occurrence of \<open>old\<close>, left to right, without overlap.
\<close>

function str_replace :: "string \<Rightarrow> string \<Rightarrow> string \<Rightarrow> string" where
  "str_replace old new s =
     (if old = [] then new @ concat (map (\<lambda>c. c # new) s)
      else (case s of
              [] \<Rightarrow> []
            | c # cs \<Rightarrow>
                if take (length old) s = old
                then new @ str_replace old new (drop (length old) s)
                else c # str_replace old new cs))"
  by pat_completeness auto
termination
  by (relation "measure (\<lambda>(old, new, s). length s)") auto

declare str_replace.simps [simp del]

text \<open>
  \<^verbatim>\<open>unidecode\<close> copies every ASCII character and looks every other character up in its
  transliteration tables. The tables are not part of the repository: they are the
  parameter \<open>tbl\<close>. A \<open>char\<close> stands for one character of the Python string.
\<close>

definition unidecode :: "(char \<Rightarrow> string) \<Rightarrow> string \<Rightarrow> string" where
  "unidecode tbl s = concat (map (\<lambda>c. if (of_char c :: nat) < 128 then [c] else tbl c) s)"

text \<open>\<^verbatim>\<open>str.lower\<close> on the transliterated text, which is ASCII: \<^verbatim>\<open>A-Z\<close> become \<^verbatim>\<open>a-z\<close>.\<close>

definition lower_char :: "char \<Rightarrow> char" where
  "lower_char c =
     (let n = (of_char c :: nat) in if 65 \<le> n \<and> n \<le> 90 then char_of (n + 32) else c)"

definition lower :: "string \<Rightarrow> string" where
  "lower s = map lower_char s"

definition replacements :: "(string \<times> string) list" where
  "replacements = [('' x '', '' ''), ('' vs '', '' ''), ('' - '', '' '')]"

definition rx_edition :: regex where
  "rx_edition =
     alts (map word_rx [''original mix'', ''extended mix'', ''radio edit'', ''mixed'',
                        ''remastered'', ''version''])"

definition rx_credit_paren :: regex where
  "rx_credit_paren =
     alts [Seq (word_rx ''ft'') Dot, Seq (word_rx ''feat'') Dot, Seq (word_rx ''prod'') Dot,
           Seq (In ''('') (word_rx ''with'')]"

definition rx_credit_open :: regex where
  "rx_credit_open =
     alts [Seq (word_rx ''ft'') Dot, Seq (word_rx ''feat'') Dot, Seq (word_rx ''prod'') Dot]"

definition rx_feat_closed :: regex where
  "rx_feat_closed = Seq (Opt (In ''('')) (Seq rx_credit_paren (Seq (Star Dot) (Lit (CHR '')''))))"

definition rx_feat_open :: regex where
  "rx_feat_open = Seq rx_credit_open (Star Dot)"

definition rx_feat :: regex where
  "rx_feat = Alt rx_feat_closed rx_feat_open"

definition allowed :: "char list" where
  "allowed = ''abcdefghijklmnopqrstuvwxyz0123456789$!&?.'' @ [CHR 0x27] @ ''- ''"

definition rx_strip :: regex where
  "rx_strip = NotIn allowed"

definition regex_table :: "(regex \<times> string) list" where
  "regex_table = [(rx_edition, []), (rx_feat, []), (rx_strip, [])]"

definition simplify :: "(char \<Rightarrow> string) \<Rightarrow> string \<Rightarrow> string" where
  "simplify tbl input_string =
     (let result = lower (unidecode tbl input_string);
          result = foldl (\<lambda>res (k, v). str_replace k v res) result replacements;
          result = foldl (\<lambda>res (k, v). re_sub k v res) result regex_table
      in result)"

section \<open>Tracks and the matcher\<close>

text \<open>
  A Spotify track is the dictionary \<^verbatim>\<open>{name, artists: [{name}], duration_ms, album: {name}}\<close>
  the playlist request asks for; a Tidal track is the object the catalogue search
  returns, with \<^verbatim>\<open>id\<close>, \<^verbatim>\<open>name\<close>, \<^verbatim>\<open>artists\<close>, \<^verbatim>\<open>duration\<close> (whole seconds) and \<^verbatim>\<open>album.name\<close>.
\<close>

record spotify_track =
  sp_name :: string
  sp_artists :: "string list"
  sp_duration_ms :: int
  sp_album :: string

record tidal_track =
  td_id :: int
  td_name :: string
  td_artists :: "string list"
  td_duration :: int
  td_album :: string

text \<open>
  What the code takes from libraries: the transliteration tables of \<^verbatim>\<open>unidecode\<close>, the
  three scores of \<^verbatim>\<open>thefuzz\<close>, and the rounding of Python's float arithmetic
  (\<open>round_float x\<close> is the double nearest to the exact value \<open>x\<close>).
\<close>

record extern =
  translit :: "char \<Rightarrow> string"
  partial_ratio :: "string \<Rightarrow> string \<Rightarrow> int"
  token_set_ratio :: "string \<Rightarrow> string \<Rightarrow> int"
  ratio :: "string \<Rightarrow> string \<Rightarrow> int"
  round_float :: "rat \<Rightarrow> rat"

definition name_match :: "extern \<Rightarrow> tidal_track \<Rightarrow> spotify_track \<Rightarrow> bool" where
  "name_match lib tidal_track spotify_track =
     (partial_ratio lib (simplify (translit lib) (td_name tidal_track))
                        (simplify (translit lib) (sp_name spotify_track)) \<ge> 90)"

definition get_tidal_artists :: "extern \<Rightarrow> tidal_track \<Rightarrow> string" where
  "get_tidal_artists lib tidal_track =
     simplify (translit lib) (foldl (\<lambda>result artist. result @ artist @ '' '') [] (td_artists tidal_track))"

definition get_spotify_artists :: "extern \<Rightarrow> spotify_track \<Rightarrow> string" where
  "get_spotify_artists lib spotify_track =
     simplify (translit lib) (foldl (\<lambda>result artist. result @ artist @ '' '') [] (sp_artists spotify_track))"

definition artist_match :: "extern \<Rightarrow> tidal_track \<Rightarrow> spotify_track \<Rightarrow> bool" where
  "artist_match lib tidal_track spotify_track =
     (token_set_ratio lib (get_tidal_artists lib tidal_track)
                          (get_spotify_artists lib spotify_track) \<ge> 80)"

text \<open>
  \<^verbatim>\<open>abs(tidal_track.duration - spotify_track['duration_ms'] / 1000) < tolerance\<close>: the
  quotient of the two integers is rounded to a double, the integer duration is
  converted to a double, and their difference is rounded again; the comparison with
  the integer tolerance is exact.
\<close>

definition duration_match :: "extern \<Rightarrow> tidal_track \<Rightarrow> spotify_track \<Rightarrow> int \<Rightarrow> bool" where
  "duration_match lib tidal_track spotify_track tolerance =
     (\<bar>round_float lib (round_float lib (of_int (td_duration tidal_track))
                        - round_float lib (of_int (sp_duration_ms spotify_track) / 1000))\<bar>
        < of_int tolerance)"

definition album_match :: "extern \<Rightarrow> tidal_track \<Rightarrow> spotify_track \<Rightarrow> bool" where
  "album_match lib tidal_track spotify_track =
     (ratio lib (simplify (translit lib) (td_album tidal_track))
                (simplify (translit lib) (sp_album spotify_track)) \<ge> 90)"

definition match :: "extern \<Rightarrow> tidal_track \<Rightarrow> spotify_track \<Rightarrow> bool" where
  "match lib tidal_track spotify_track =
     (let name_matching = name_match lib tidal_track spotify_track;
          artist_matching = artist_match lib tidal_track spotify_track;
          duration_matching = duration_match lib tidal_track spotify_track 2;
          album_matching = album_match lib tidal_track spotify_track
      in count_list [name_matching, artist_matching, duration_matching, album_matching] True \<ge> 3)"

section \<open>The resolver\<close>

datatype error = IndexError | SearchFailed | PlaylistMissing

text \<open>
  The catalogue search \<^verbatim>\<open>tidal_session.search(query)['tracks']\<close> is a parameter: it
  returns the candidates in catalogue order, or raises.
\<close>

type_synonym search = "string \<Rightarrow> error + tidal_track list"

text \<open>
  Lines 76 to 78 of \<^verbatim>\<open>tidal_search\<close>: the query. \<^verbatim>\<open>spotify_track['artists'][0]\<close> raises
  on a track without artists.
\<close>

definition tidal_search_query :: "extern \<Rightarrow> spotify_track \<Rightarrow> error + string" where
  "tidal_search_query lib spotify_track =
     (let query = simplify (translit lib) (sp_name spotify_track)
      in if length query \<le> 25
         then (case sp_artists spotify_track of
                 [] \<Rightarrow> Inl IndexError
               | artist # _ \<Rightarrow>
                   Inr (simplify (translit lib) artist @ '' ''
                        @ simplify (translit lib) (sp_name spotify_track)))
         else Inr query)"

text \<open>
  The rest of \<^verbatim>\<open>tidal_search\<close>: the first candidate that matches; falling off the loop
  returns \<^verbatim>\<open>None\<close>.
\<close>

definition tidal_search :: "extern \<Rightarrow> search \<Rightarrow> spotify_track \<Rightarrow> error + tidal_track option" where
  "tidal_search lib tidal_session spotify_track =
     (case tidal_search_query lib spotify_track of
        Inl e \<Rightarrow> Inl e
      | Inr query \<Rightarrow>
          (case tidal_session query of
             Inl e \<Rightarrow> Inl e
           | Inr tracks \<Rightarrow> Inr (find (\<lambda>track. match lib track spotify_track) tracks)))"

section \<open>The worker pool\<close>

text \<open>
  \<^verbatim>\<open>Pool.map(f, xs)\<close> hands every item to a worker and stores each result in the slot of
  its item as the workers finish, in any order: \<open>sched\<close> is the order in which the
  tasks finish. When all have finished it returns the slots, or raises the first
  exception a task raised.
\<close>

definition pool_step ::
  "('a \<Rightarrow> error + 'b option) \<Rightarrow> 'a list \<Rightarrow> nat \<Rightarrow> 'b option list \<times> error option
     \<Rightarrow> 'b option list \<times> error option" where
  "pool_step f xs i st =
     (if i < length xs
      then (case f (xs ! i) of
              Inr v \<Rightarrow> ((fst st)[i := v], snd st)
            | Inl e \<Rightarrow> (fst st, (case snd st of None \<Rightarrow> Some e | Some e' \<Rightarrow> Some e')))
      else st)"

definition pool_map ::
  "('a \<Rightarrow> error + 'b option) \<Rightarrow> 'a list \<Rightarrow> nat list \<Rightarrow> error + 'b option list" where
  "pool_map f xs sched =
     (case fold (pool_step f xs) sched (replicate (length xs) None, None) of
        (slots, None) \<Rightarrow> Inr slots
      | (slots, Some e) \<Rightarrow> Inl e)"

definition call_async ::
  "extern \<Rightarrow> search \<Rightarrow> nat list \<Rightarrow> spotify_track list \<Rightarrow> error + tidal_track option list" where
  "call_async lib tidal_session sched spotify_tracks =
     (case pool_map (tidal_search lib tidal_session) spotify_tracks sched of
        Inl e \<Rightarrow> Inl e
      | Inr mapped \<Rightarrow>
          Inr (fold (\<lambda>(index, result) results. results[index := result])
                    (enumerate 0 mapped)
                    (replicate (length spotify_tracks) None)))"

section \<open>Playlist sync\<close>

text \<open>
  The pages of the source playlist: the items of a page, some of them without a track,
  and the next page when there is one.
\<close>

datatype page = Page "spotify_track option list" "page option"

fun get_tracks_from_spotify_playlist :: "page \<Rightarrow> spotify_track list" where
  "get_tracks_from_spotify_playlist (Page items nxt) =
     List.map_filter (\<lambda>r. r) items
     @ (case nxt of None \<Rightarrow> [] | Some results \<Rightarrow> get_tracks_from_spotify_playlist results)"

text \<open>
  The destination account: the track identifiers of every playlist, by playlist
  identifier. \<^verbatim>\<open>session.playlist(id)\<close> raises for an unknown identifier, and
  \<^verbatim>\<open>playlist.add(ids)\<close> of the Tidal client adds the tracks behind those the playlist
  holds.
\<close>

type_synonym tidal_playlists = "int \<rightharpoonup> int list"

definition set_tidal_playlist :: "tidal_playlists \<Rightarrow> int \<Rightarrow> int list \<Rightarrow> error + tidal_playlists" where
  "set_tidal_playlist session playlist_id track_ids =
     (case session playlist_id of
        None \<Rightarrow> Inl PlaylistMissing
      | Some held \<Rightarrow> Inr (session(playlist_id \<mapsto> held @ track_ids)))"

text \<open>
  The loop of \<^verbatim>\<open>sync_playlist\<close>: the identifiers found, and the one-based positions
  reported as not found.
\<close>

definition collect :: "tidal_track option list \<Rightarrow> int list \<times> nat list" where
  "collect tidal_tracks =
     fold (\<lambda>(index, tidal_track) (tidal_track_ids, printed).
             case tidal_track of
               Some t \<Rightarrow> (tidal_track_ids @ [td_id t], printed)
             | None \<Rightarrow> (tidal_track_ids, printed @ [index + 1]))
          (enumerate 0 tidal_tracks) ([], [])"

text \<open>
  \<^verbatim>\<open>sync_playlist\<close> returns what it printed and either the destination account after the
  write or the exception that ended it.
\<close>

definition sync_playlist ::
  "extern \<Rightarrow> search \<Rightarrow> nat list \<Rightarrow> tidal_playlists \<Rightarrow> page \<Rightarrow> int
     \<Rightarrow> nat list \<times> (error + tidal_playlists)" where
  "sync_playlist lib tidal_session sched session spotify_playlist tidal_playlist_id =
     (let spotify_tracks = get_tracks_from_spotify_playlist spotify_playlist
      in case call_async lib tidal_session sched spotify_tracks of
           Inl e \<Rightarrow> ([], Inl e)
         | Inr tidal_tracks \<Rightarrow>
             (let (tidal_track_ids, printed) = collect tidal_tracks
              in (printed, set_tidal_playlist session tidal_playlist_id tidal_track_ids)))"

section \<open>Sample data\<close>

text \<open>
  A library instance for running the definitions: a table that drops every character
  beyond ASCII, scores that are 100 on equal texts and 0 otherwise, and exact
  arithmetic.
\<close>

definition drop_table :: "char \<Rightarrow> string" where
  "drop_table c = []"

definition same_score :: "string \<Rightarrow> string \<Rightarrow> int" where
  "same_score a b = (if a = b then 100 else 0)"

definition exact_round :: "rat \<Rightarrow> rat" where
  "exact_round x = x"

definition exact_lib :: extern where
  "exact_lib =
     \<lparr>translit = drop_table, partial_ratio = same_score, token_set_ratio = same_score,
      ratio = same_score, round_float = exact_round\<rparr>"

definition yes_track :: spotify_track where
  "yes_track = \<lparr>sp_name = ''Yes'', sp_artists = [''Ab''], sp_duration_ms = 200000, sp_album = ''Lp''\<rparr>"

definition no_track :: spotify_track where
  "no_track = \<lparr>sp_name = ''No'', sp_artists = [''Cd''], sp_duration_ms = 180000, sp_album = ''Ep''\<rparr>"

definition yes_other_album :: tidal_track where
  "yes_other_album =
     \<lparr>td_id = 5, td_name = ''Yes'', td_artists = [''Ab''], td_duration = 201, td_album = ''Zz''\<rparr>"

definition yes_other_album_late :: tidal_track where
  "yes_other_album_late =
     \<lparr>td_id = 6, td_name = ''Yes'', td_artists = [''Ab''], td_duration = 202, td_album = ''Zz''\<rparr>"

definition long_track :: spotify_track where
  "long_track =
     \<lparr>sp_name = ''The Long And Winding Road Goes On'', sp_artists = [''Ab''],
      sp_duration_ms = 180000, sp_album = ''Lp''\<rparr>"

definition yes_longer :: spotify_track where
  "yes_longer = \<lparr>sp_name = ''Yes'', sp_artists = [''Ab''], sp_duration_ms = 200001, sp_album = ''Lp''\<rparr>"

text \<open>
  A catalogue that answers the query \<^verbatim>\<open>"ab yes"\<close> with two candidates, the first of which
  does not match, and every other query with none; and the same catalogue whose search
  raises on the query \<^verbatim>\<open>"cd no"\<close>.
\<close>

definition catalogue :: search where
  "catalogue query = (if query = ''ab yes'' then Inr [yes_other_album_late, yes_other_album] else Inr [])"

definition flaky_catalogue :: search where
  "flaky_catalogue query = (if query = ''cd no'' then Inl SearchFailed else catalogue query)"

text \<open>
  A source playlist of two pages, with an item without track; a destination account whose
  playlist 7 holds a track, and one whose playlist 7 is empty.
\<close>

definition two_pages :: page where
  "two_pages = Page [Some yes_track, None] (Some (Page [Some no_track] None))"

definition held_playlists :: tidal_playlists where
  "held_playlists = Map.empty(7 \<mapsto> [100])"


section \<open>Notions the properties are stated with\<close>




text \<open>
  The text as it reaches the credit pattern: transliterated, lowercased, join markers
  and edition words removed.
\<close>

definition pre_credit :: "(char \<Rightarrow> string) \<Rightarrow> string \<Rightarrow> string" where
  "pre_credit tbl input_string =
     re_sub rx_edition []
       (foldl (\<lambda>res (k, v). str_replace k v res) (lower (unidecode tbl input_string)) replacements)"

text \<open>
  The specification's reading of the open credit clause: a marker \<^verbatim>\<open>ft.\<close>, \<^verbatim>\<open>feat.\<close> or
  \<^verbatim>\<open>prod.\<close>, its last character being any character, and the removal of everything from
  the first marker to the end of the text.
\<close>

definition credit_here :: "string \<Rightarrow> bool" where
  "credit_here s =
     ((take 2 s = ''ft'' \<and> 2 < length s)
      \<or> (take 4 s = ''feat'' \<and> 4 < length s)
      \<or> (take 4 s = ''prod'' \<and> 4 < length s))"


text \<open>
  A completion order of \<open>n\<close> tasks: every task finishes once, in any order.
\<close>

definition schedule :: "nat \<Rightarrow> nat list \<Rightarrow> bool" where
  "schedule n sched = (distinct sched \<and> set sched = {0..<n})"

section \<open>The verdict of the matcher\<close>

text \<open>
  C1. The verdict of \<open>match\<close> is true exactly when at least three of the four signals
  (title, artists, duration, album) are true: it is the disjunction of the four ways
  to choose three of them, so two true signals give false and three give true.
\<close>

theorem match_verdict:
  "match lib t s \<longleftrightarrow>
     (name_match lib t s \<and> artist_match lib t s \<and> duration_match lib t s 2)
   \<or> (name_match lib t s \<and> artist_match lib t s \<and> album_match lib t s)
   \<or> (name_match lib t s \<and> duration_match lib t s 2 \<and> album_match lib t s)
   \<or> (artist_match lib t s \<and> duration_match lib t s 2 \<and> album_match lib t s)"
  unfolding match_def Let_def
  by (cases "name_match lib t s"; cases "artist_match lib t s";
      cases "duration_match lib t s 2"; cases "album_match lib t s"; simp)

text \<open>
  The same title and artists with another album: one second apart the candidate has
  three true signals and matches, two seconds apart it has two and does not.
\<close>

theorem match_verdict_witness:
  "match exact_lib yes_other_album yes_track \<and> \<not> match exact_lib yes_other_album_late yes_track"
proof -
  have n: "name_match exact_lib yes_other_album yes_track"
    and a: "artist_match exact_lib yes_other_album yes_track"
    and d: "duration_match exact_lib yes_other_album yes_track 2"
    by code_simp+
  have al: "\<not> album_match exact_lib yes_other_album_late yes_track"
    and dl: "\<not> duration_match exact_lib yes_other_album_late yes_track 2"
    by code_simp+
  show ?thesis
    using match_verdict [of exact_lib yes_other_album yes_track]
      match_verdict [of exact_lib yes_other_album_late yes_track] n a d al dl
    by simp
qed

section \<open>The duration signal\<close>

text \<open>
  The values \<open>k + j / 1024\<close> with \<open>k\<close> below \<open>2 ^ 42\<close> and \<open>j\<close> up to \<open>4096\<close> in
  magnitude have at most 53 significant bits: a rounding that is exact on
  \<open>m / 1024\<close> for \<open>m\<close> below \<open>2 ^ 53\<close> keeps them.
\<close>

lemma grid_int:
  fixes fl :: "rat \<Rightarrow> rat"
  assumes exact: "\<And>m::int. \<bar>m\<bar> < 2 ^ 53 \<Longrightarrow> fl (of_int m / 1024) = of_int m / 1024"
    and "\<bar>k\<bar> < 2 ^ 42" and "\<bar>j\<bar> \<le> 4096"
  shows "fl (of_int k + of_int j / 1024) = of_int k + of_int j / 1024"
proof -
  have "\<bar>1024 * k + j\<bar> < 2 ^ 53" using assms(2,3) by simp
  from exact [OF this] show ?thesis by (simp add: add_divide_distrib)
qed

lemma rat_of_int_le: "a \<le> b \<Longrightarrow> (of_int a :: rat) \<le> of_int b"
  by simp

text \<open>
  C6. With a float rounding that is monotone and exact on the doubles \<open>m / 1024\<close>
  (as rounding to the nearest double is), and a candidate duration below \<open>2 ^ 41\<close>
  seconds, the duration signal holds exactly when the two durations are less than
  2000 milliseconds apart: 1999 milliseconds match, 2000 do not.
\<close>

theorem duration_match_strict:
  assumes mono: "\<And>x y. x \<le> y \<Longrightarrow> round_float lib x \<le> round_float lib y"
    and exact: "\<And>m::int. \<bar>m\<bar> < 2 ^ 53 \<Longrightarrow> round_float lib (of_int m / 1024) = of_int m / 1024"
    and range: "\<bar>td_duration t\<bar> < 2 ^ 41"
  shows "duration_match lib t s 2 \<longleftrightarrow> \<bar>1000 * td_duration t - sp_duration_ms s\<bar> < 2000"
proof -
  define d where "d = td_duration t"
  define ms where "ms = sp_duration_ms s"
  define fl where "fl = round_float lib"
  define x :: rat where "x = of_int ms / 1000"
  have g: "fl (of_int k + of_int j / 1024) = of_int k + of_int j / 1024"
    if "\<bar>k\<bar> < 2 ^ 42" "\<bar>j\<bar> \<le> 4096" for k j :: int
    using grid_int [of fl k j] exact that unfolding fl_def by blast
  have small: "\<bar>d\<bar> < 2 ^ 42" "\<bar>d - 2\<bar> < 2 ^ 42" "\<bar>d + 2\<bar> < 2 ^ 42"
    using range by (simp_all add: d_def)
  have fd: "fl (of_int d) = of_int d" using g [of d 0] small by simp
  have m: "fl a \<le> fl b" if "a \<le> b" for a b using mono that by (simp add: fl_def)
  have dm: "duration_match lib t s 2 \<longleftrightarrow> \<bar>fl (of_int d - fl x)\<bar> < 2"
    using fd by (simp add: duration_match_def d_def ms_def fl_def x_def)
  have xe: "1000 * x = of_int ms" by (simp add: x_def)
  consider (near) "\<bar>1000 * d - ms\<bar> < 2000" | (late) "2000 \<le> 1000 * d - ms"
    | (early) "2000 \<le> ms - 1000 * d"
    by linarith
  then have "\<bar>fl (of_int d - fl x)\<bar> < 2 \<longleftrightarrow> \<bar>1000 * d - ms\<bar> < 2000"
  proof cases
    case near
    then have "-1999 \<le> 1000 * d - ms" "1000 * d - ms \<le> 1999" by linarith+
    from rat_of_int_le [OF this(1)] rat_of_int_le [OF this(2)]
    have "(-1999::rat) \<le> 1000 * of_int d - of_int ms" "1000 * of_int d - of_int ms \<le> (1999::rat)"
      by simp_all
    then have b: "x \<le> of_int d + of_int 2047 / 1024" "of_int d + of_int (-2047) / 1024 \<le> x"
      using xe by simp_all
    have "fl x \<le> of_int d + of_int 2047 / 1024" "of_int d + of_int (-2047) / 1024 \<le> fl x"
      using m [OF b(1)] m [OF b(2)] g [of d 2047] g [of d "-2047"] small by simp_all
    then have z: "of_int d - fl x \<le> of_int 0 + of_int 2047 / 1024"
      "of_int 0 + of_int (-2047) / 1024 \<le> of_int d - fl x"
      by simp_all
    have "fl (of_int d - fl x) \<le> of_int 0 + of_int 2047 / 1024"
      "of_int 0 + of_int (-2047) / 1024 \<le> fl (of_int d - fl x)"
      using m [OF z(1)] m [OF z(2)] g [of 0 2047] g [of 0 "-2047"] by simp_all
    then have "\<bar>fl (of_int d - fl x)\<bar> < 2" by simp
    with near show ?thesis by simp
  next
    case late
    from rat_of_int_le [OF this] have "(2000::rat) \<le> 1000 * of_int d - of_int ms" by simp
    then have b: "x \<le> of_int (d - 2) + of_int 0 / 1024" using xe by simp
    have "fl x \<le> of_int d - 2" using m [OF b] g [of "d - 2" 0] small by simp
    then have z: "of_int 2 + of_int 0 / 1024 \<le> of_int d - fl x" by simp
    have "2 \<le> fl (of_int d - fl x)" using m [OF z] g [of 2 0] by simp
    then have "\<not> \<bar>fl (of_int d - fl x)\<bar> < 2" by simp
    with late show ?thesis by simp
  next
    case early
    from rat_of_int_le [OF this] have "(2000::rat) \<le> of_int ms - 1000 * of_int d" by simp
    then have b: "of_int (d + 2) + of_int 0 / 1024 \<le> x" using xe by simp
    have "of_int d + 2 \<le> fl x" using m [OF b] g [of "d + 2" 0] small by simp
    then have z: "of_int d - fl x \<le> of_int (-2) + of_int 0 / 1024" by simp
    have "fl (of_int d - fl x) \<le> -2" using m [OF z] g [of "-2" 0] by simp
    then have "\<not> \<bar>fl (of_int d - fl x)\<bar> < 2" by simp
    with early show ?thesis by simp
  qed
  with dm show ?thesis by (simp add: d_def ms_def)
qed

text \<open>
  A candidate of 202 seconds: against 200000 milliseconds the difference is 2.000
  seconds and the signal is false, against 200001 it is 1.999 and the signal is true.
\<close>

theorem duration_match_strict_witness:
  "\<not> duration_match exact_lib yes_other_album_late yes_track 2
   \<and> duration_match exact_lib yes_other_album_late yes_longer 2"
proof -
  have mono: "\<And>x y. x \<le> y \<Longrightarrow> round_float exact_lib x \<le> round_float exact_lib y"
    by (simp add: exact_lib_def exact_round_def)
  have exact: "\<And>m::int. \<bar>m\<bar> < 2 ^ 53 \<Longrightarrow>
      round_float exact_lib (of_int m / 1024) = of_int m / 1024"
    by (simp add: exact_lib_def exact_round_def)
  have range: "\<bar>td_duration yes_other_album_late\<bar> < 2 ^ 41"
    by (simp add: yes_other_album_late_def)
  show ?thesis
    using duration_match_strict [of exact_lib yes_other_album_late yes_track, OF mono exact range]
      duration_match_strict [of exact_lib yes_other_album_late yes_longer, OF mono exact range]
    by (simp add: yes_other_album_late_def yes_track_def yes_longer_def)
qed

section \<open>Facts about the matcher and the substitution\<close>

text \<open>Every remainder the matcher returns is a suffix of the subject.\<close>

lemma matches_suffix: "t \<in> set (matches r s) \<Longrightarrow> suffix t s"
proof (induction r s arbitrary: t rule: matches.induct)
  case (1 s)
  then show ?case by simp
next
  case (2 c s)
  then show ?case by (cases s) (simp_all add: suffix_Cons split: if_splits)
next
  case (3 s)
  then show ?case by (cases s) (simp_all add: suffix_Cons split: if_splits)
next
  case (4 cs s)
  then show ?case by (cases s) (simp_all add: suffix_Cons split: if_splits)
next
  case (5 cs s)
  then show ?case by (cases s) (simp_all add: suffix_Cons split: if_splits)
next
  case (6 a b s)
  from "6.prems" obtain t' where t': "t' \<in> set (matches a s)" "t \<in> set (matches b t')"
    by auto
  from "6.IH"(1) [OF t'(1)] "6.IH"(2) [OF t'(1) t'(2)] show ?case
    by (rule suffix_order.trans [rotated])
next
  case (7 a b s)
  then show ?case by auto
next
  case (8 a s)
  then show ?case by auto
next
  case (9 a s)
  show ?case
  proof (cases "t = s")
    case True
    then show ?thesis by simp
  next
    case False
    have eq: "matches (Star a) s = concat (map (matches (Star a))
        (filter (\<lambda>t. length t < length s) (matches a s))) @ [s]"
      by (rule matches.simps(9))
    from "9.prems" False obtain t' where t': "t' \<in> set (matches a s)" "length t' < length s"
      "t \<in> set (matches (Star a) t')"
      unfolding eq by auto
    then have "t' \<in> set (filter (\<lambda>t. length t < length s) (matches a s))" by simp
    from "9.IH"(2) [OF this t'(3)] "9.IH"(1) [OF t'(1)] show ?thesis
      by (rule suffix_order.trans)
  qed
qed

lemma re_sub_Nil: "matches r [] = [] \<Longrightarrow> re_sub r repl [] = []"
  by (simp add: re_sub.simps)

lemma re_sub_skip: "matches r (c # cs) = [] \<Longrightarrow> re_sub r repl (c # cs) = c # re_sub r repl cs"
  by (simp add: re_sub.simps)

lemma re_sub_take:
  "matches r s = t # ts \<Longrightarrow> length t < length s \<Longrightarrow> re_sub r repl s = repl @ re_sub r repl t"
  by (subst re_sub.simps) simp




lemma simplify_steps:
  "simplify tbl s = re_sub rx_strip [] (re_sub rx_feat [] (pre_credit tbl s))"
  by (simp add: simplify_def pre_credit_def regex_table_def Let_def)

text \<open>What the parts of the credit pattern match.\<close>

lemma dot_star_Nil: "matches (Star Dot) [] = [[]]"
  by (simp add: matches.simps(9))

lemma dot_star_Cons:
  "matches (Star Dot) (c # cs) = (if c \<noteq> CHR 0x0A then matches (Star Dot) cs else []) @ [c # cs]"
  by (subst matches.simps(9)) simp

lemma dot_star_hd: "\<exists>ts. matches (Star Dot) s = dropWhile (\<lambda>c. c \<noteq> CHR 0x0A) s # ts"
  by (induction s) (auto simp: dot_star_Nil dot_star_Cons)

lemma lit_mem: "t \<in> set (matches (Lit c) s) \<longleftrightarrow> s = c # t"
  by (cases s) auto

lemma in_mem: "t \<in> set (matches (In cs) s) \<longleftrightarrow> (\<exists>c \<in> set cs. s = c # t)"
  by (cases s) auto

lemma dot_mem: "t \<in> set (matches Dot s) \<longleftrightarrow> (\<exists>c. c \<noteq> CHR 0x0A \<and> s = c # t)"
  by (cases s) auto

lemma seq_mem: "t \<in> set (matches (Seq a b) s) \<longleftrightarrow> (\<exists>u \<in> set (matches a s). t \<in> set (matches b u))"
  by auto

lemma word_mem: "t \<in> set (matches (word_rx w) s) \<longleftrightarrow> s = w @ t"
proof (induction w arbitrary: s)
  case Nil
  show ?case by auto
next
  case (Cons c cs)
  have "t \<in> set (matches (word_rx (c # cs)) s)
      \<longleftrightarrow> (\<exists>u. u \<in> set (matches (Lit c) s) \<and> t \<in> set (matches (word_rx cs) u))"
    by (simp add: Bex_def del: matches.simps(2))
  also have "\<dots> \<longleftrightarrow> (\<exists>u. s = c # u \<and> u = cs @ t)"
    by (simp only: lit_mem Cons.IH)
  also have "\<dots> \<longleftrightarrow> s = (c # cs) @ t"
    by auto
  finally show ?case .
qed

lemma marker_mem:
  "t \<in> set (matches (Seq (word_rx w) Dot) s) \<longleftrightarrow> (\<exists>c. c \<noteq> CHR 0x0A \<and> s = w @ c # t)"
proof -
  have "t \<in> set (matches (Seq (word_rx w) Dot) s)
      \<longleftrightarrow> (\<exists>u. u \<in> set (matches (word_rx w) s) \<and> t \<in> set (matches Dot u))"
    by (simp add: Bex_def del: matches.simps(3))
  also have "\<dots> \<longleftrightarrow> (\<exists>u. s = w @ u \<and> (\<exists>c. c \<noteq> CHR 0x0A \<and> u = c # t))"
    by (simp only: word_mem dot_mem)
  also have "\<dots> \<longleftrightarrow> (\<exists>c. c \<noteq> CHR 0x0A \<and> s = w @ c # t)"
    by blast
  finally show ?thesis .
qed

lemma credit_open_mem:
  "t \<in> set (matches rx_credit_open s) \<longleftrightarrow>
     (\<exists>c. c \<noteq> CHR 0x0A \<and> (s = ''ft'' @ c # t \<or> s = ''feat'' @ c # t \<or> s = ''prod'' @ c # t))"
  (is "?L \<longleftrightarrow> ?R")
proof -
  have "matches rx_credit_open s
      = matches (Seq (word_rx ''ft'') Dot) s @ matches (Seq (word_rx ''feat'') Dot) s
        @ matches (Seq (word_rx ''prod'') Dot) s"
    by (simp add: rx_credit_open_def del: word_rx.simps matches.simps)
        (simp only: matches.simps(7))
  then have "?L \<longleftrightarrow> t \<in> set (matches (Seq (word_rx ''ft'') Dot) s)
      \<or> t \<in> set (matches (Seq (word_rx ''feat'') Dot) s)
      \<or> t \<in> set (matches (Seq (word_rx ''prod'') Dot) s)"
    by (simp only: set_append Un_iff)
  also have "\<dots> \<longleftrightarrow> (\<exists>c. c \<noteq> CHR 0x0A \<and> s = ''ft'' @ c # t)
      \<or> (\<exists>c. c \<noteq> CHR 0x0A \<and> s = ''feat'' @ c # t)
      \<or> (\<exists>c. c \<noteq> CHR 0x0A \<and> s = ''prod'' @ c # t)"
    by (simp only: marker_mem)
  also have "\<dots> \<longleftrightarrow> ?R"
    by (simp only: ex_disj_distrib conj_disj_distribL)
  finally show ?thesis .
qed

text \<open>
  The first match of the credit pattern, and what its removal leaves of a text without
  closing parenthesis and newline.
\<close>

lemma feat_closed_mem:
  assumes "t \<in> set (matches rx_feat_closed s)"
  shows "\<exists>u. s = u @ CHR '')'' # t"
proof -
  from assms obtain u1 where u1: "u1 \<in> set (matches (Opt (In ''('')) s)"
    "t \<in> set (matches (Seq rx_credit_paren (Seq (Star Dot) (Lit (CHR '')'')))) u1)"
    unfolding rx_feat_closed_def by (subst (asm) seq_mem) blast
  from u1(2) obtain u2 where u2: "u2 \<in> set (matches rx_credit_paren u1)"
    "t \<in> set (matches (Seq (Star Dot) (Lit (CHR '')''))) u2)"
    by (subst (asm) seq_mem) blast
  from u2(2) obtain u3 where u3: "u3 \<in> set (matches (Star Dot) u2)"
    "t \<in> set (matches (Lit (CHR '')'')) u3)"
    by (subst (asm) seq_mem) blast
  from u3(2) have "u3 = CHR '')'' # t" by (simp only: lit_mem)
  moreover have "suffix u3 s"
    using matches_suffix [OF u1(1)] matches_suffix [OF u2(1)] matches_suffix [OF u3(1)]
    by (blast intro: suffix_order.trans)
  ultimately show ?thesis by (auto simp: suffix_def)
qed

lemma feat_closed_none:
  assumes "CHR '')'' \<notin> set s"
  shows "matches rx_feat_closed s = []"
proof (cases "matches rx_feat_closed s")
  case Nil
  then show ?thesis .
next
  case (Cons t ts)
  then have "t \<in> set (matches rx_feat_closed s)" by simp
  from feat_closed_mem [OF this] assms show ?thesis by auto
qed

lemma feat_open_none: "matches rx_credit_open s = [] \<Longrightarrow> matches rx_feat_open s = []"
  by (simp add: rx_feat_open_def)

lemma feat_open_first:
  assumes "matches rx_credit_open s = m # ms"
  shows "\<exists>ts. matches rx_feat_open s = dropWhile (\<lambda>c. c \<noteq> CHR 0x0A) m # ts"
proof -
  from dot_star_hd [of m] obtain ts where "matches (Star Dot) m = dropWhile (\<lambda>c. c \<noteq> CHR 0x0A) m # ts"
    by blast
  with assms show ?thesis by (simp add: rx_feat_open_def)
qed

lemma feat_split: "matches rx_feat s = matches rx_feat_closed s @ matches rx_feat_open s"
  by (simp add: rx_feat_def)

lemma feat_first:
  assumes "matches rx_feat s = t # ts"
  shows "\<exists>u. u \<noteq> [] \<and> s = u @ t \<and> (last u = CHR '')'' \<or> t = [] \<or> hd t = CHR 0x0A)"
proof (cases "matches rx_feat_closed s")
  case (Cons t' ts')
  with assms have "t \<in> set (matches rx_feat_closed s)" by (simp add: feat_split)
  from feat_closed_mem [OF this] obtain u where "s = u @ CHR '')'' # t" by blast
  then have "u @ [CHR '')''] \<noteq> [] \<and> s = (u @ [CHR '')'']) @ t \<and> last (u @ [CHR '')'']) = CHR '')''"
    by simp
  then show ?thesis by blast
next
  case Nil
  with assms have o: "matches rx_feat_open s = t # ts" by (simp add: feat_split)
  show ?thesis
  proof (cases "matches rx_credit_open s")
    case Nil
    from feat_open_none [OF this] o show ?thesis by simp
  next
    case (Cons m ms)
    from feat_open_first [OF this] o have t: "t = dropWhile (\<lambda>c. c \<noteq> CHR 0x0A) m" by auto
    from Cons have "m \<in> set (matches rx_credit_open s)" by simp
    then obtain w c where w: "s = w @ c # m" unfolding credit_open_mem by blast
    have "s = (w @ c # takeWhile (\<lambda>c. c \<noteq> CHR 0x0A) m) @ t"
      by (simp add: w t)
    moreover have "t = [] \<or> hd t = CHR 0x0A"
      using hd_dropWhile [of "\<lambda>c. c \<noteq> CHR 0x0A" m] by (auto simp: t)
    ultimately show ?thesis
      by (metis append_is_Nil_conv list.distinct(1))
  qed
qed


lemma take_split:
  assumes "take (length w) s = w" "length w < length s"
  shows "\<exists>c t. s = w @ c # t"
proof -
  have "s = take (length w) s @ drop (length w) s" by simp
  moreover from assms(2) obtain c t where "drop (length w) s = c # t"
    by (cases "drop (length w) s") auto
  ultimately show ?thesis using assms(1) by metis
qed

lemma credit_here_matches:
  assumes "CHR 0x0A \<notin> set s" "credit_here s"
  shows "matches rx_credit_open s \<noteq> []"
proof -
  have ft: "length ''ft'' = 2" and feat: "length ''feat'' = 4" and prod: "length ''prod'' = 4"
    by simp_all
  from assms(2) have "(take (length ''ft'') s = ''ft'' \<and> length ''ft'' < length s)
      \<or> (take (length ''feat'') s = ''feat'' \<and> length ''feat'' < length s)
      \<or> (take (length ''prod'') s = ''prod'' \<and> length ''prod'' < length s)"
    unfolding credit_here_def ft feat prod .
  then obtain w c t where w: "w = ''ft'' \<or> w = ''feat'' \<or> w = ''prod''" "s = w @ c # t"
    using take_split [of "''ft''" s] take_split [of "''feat''" s] take_split [of "''prod''" s]
    by blast
  from w(2) assms(1) have "c \<noteq> CHR 0x0A" by auto
  with w have "t \<in> set (matches rx_credit_open s)" unfolding credit_open_mem by blast
  then show ?thesis by auto
qed

lemma feat_Nil: "matches rx_feat [] = []"
  by code_simp


lemma credit_cut_first:
  assumes "credit_here s" "CHR '')'' \<notin> set s" "CHR 0x0A \<notin> set s"
  shows "\<exists>ts. matches rx_feat s = [] # ts"
proof -
  from credit_here_matches [OF assms(3,1)] obtain m ms where m: "matches rx_credit_open s = m # ms"
    by (cases "matches rx_credit_open s") auto
  then have "m \<in> set (matches rx_credit_open s)" by simp
  from matches_suffix [OF this] have "set m \<subseteq> set s" by (auto simp: suffix_def)
  with assms(3) have "dropWhile (\<lambda>c. c \<noteq> CHR 0x0A) m = []" by auto
  with feat_open_first [OF m] feat_closed_none [OF assms(2)] show ?thesis
    by (simp add: feat_split)
qed


lemma re_sub_feat_Nil: "re_sub rx_feat [] [] = []"
  by (rule re_sub_Nil) (rule feat_Nil)


lemma cut_tail:
  assumes m: "credit_here m" "CHR '')'' \<notin> set m" "CHR 0x0A \<notin> set m"
  shows "subseq (re_sub rx_feat [] (pre @ m)) pre"
proof (induction "length pre" arbitrary: pre rule: less_induct)
  case less
  show ?case
  proof (cases "matches rx_feat (pre @ m)")
    case Nil
    have "pre \<noteq> []"
    proof
      assume "pre = []"
      with Nil credit_cut_first [OF m] show False by simp
    qed
    then obtain p ps where p: "pre = p # ps" by (cases pre) auto
    from Nil have "re_sub rx_feat [] (pre @ m) = p # re_sub rx_feat [] (ps @ m)"
      by (simp add: p re_sub_skip)
    moreover have "subseq (re_sub rx_feat [] (ps @ m)) ps" by (rule less) (simp add: p)
    ultimately show ?thesis by (simp add: p)
  next
    case (Cons t ts)
    from feat_first [OF Cons] obtain u where u: "u \<noteq> []" "pre @ m = u @ t"
      "last u = CHR '')'' \<or> t = [] \<or> hd t = CHR 0x0A" by blast
    have "length (pre @ m) = length u + length t" by (simp only: u(2) length_append)
    with u(1) have "length t < length (pre @ m)" by simp
    from re_sub_take [OF Cons this] have r: "re_sub rx_feat [] (pre @ m) = re_sub rx_feat [] t" by simp
    from u(2) obtain us where "(pre = u @ us \<and> us @ m = t) \<or> (pre @ us = u \<and> m = us @ t)"
      by (auto simp: append_eq_append_conv2)
    then consider (before) us where "pre = u @ us" "t = us @ m"
      | (inside) us where "us \<noteq> []" "u = pre @ us" "m = us @ t"
      by (cases "us = []") auto
    then show ?thesis
    proof cases
      case before
      from before(1) u(1) have "length us < length pre" by simp
      from less [OF this] have "subseq (re_sub rx_feat [] (us @ m)) us" .
      moreover have "subseq us pre" unfolding before(1) by (rule list_emb_append2) simp
      ultimately show ?thesis unfolding r before(2) by (rule subseq_order.trans)
    next
      case inside
      from inside(1,2) have "last u \<in> set m" by (simp add: inside(3))
      with m(2) have "last u \<noteq> CHR '')''" by auto
      moreover have "t \<noteq> [] \<Longrightarrow> hd t \<noteq> CHR 0x0A"
      proof -
        assume "t \<noteq> []"
        then have "hd t \<in> set m" by (simp add: inside(3))
        with m(3) show ?thesis by auto
      qed
      ultimately have "t = []" using u(3) by blast
      then show ?thesis by (simp add: r re_sub_feat_Nil)
    qed
  qed
qed






text \<open>
  Every step after lowercasing only deletes characters; what holds of a text also holds
  of the part of it before its first credit marker.
\<close>

lemma re_sub_empty_match:
  "matches r s = t # ts \<Longrightarrow> \<not> length t < length s \<Longrightarrow>
   re_sub r repl s = (case s of [] \<Rightarrow> repl | c # cs \<Rightarrow> repl @ c # re_sub r repl cs)"
  by (subst re_sub.simps) simp

lemma re_sub_subseq: "subseq (re_sub r [] s) s"
proof (induction "length s" arbitrary: s rule: less_induct)
  case less
  show ?case
  proof (cases "matches r s")
    case Nil
    show ?thesis
    proof (cases s)
      case Nil
      with \<open>matches r s = []\<close> show ?thesis by (simp add: re_sub_Nil)
    next
      case (Cons c cs)
      with \<open>matches r s = []\<close> have "re_sub r [] s = c # re_sub r [] cs" by (simp add: re_sub_skip)
      moreover have "subseq (re_sub r [] cs) cs" by (rule less) (simp add: Cons)
      ultimately show ?thesis by (simp add: Cons)
    qed
  next
    case (Cons t ts)
    then have "t \<in> set (matches r s)" by simp
    from matches_suffix [OF this] have suf: "suffix t s" .
    show ?thesis
    proof (cases "length t < length s")
      case True
      from re_sub_take [OF Cons True] have "re_sub r [] s = re_sub r [] t" by simp
      moreover from less [OF True] have "subseq (re_sub r [] t) t" .
      moreover from suf have "subseq t s" by (rule suffix_imp_subseq)
      ultimately show ?thesis by (metis subseq_order.trans)
    next
      case False
      note eq = re_sub_empty_match [OF Cons False, of "[]"]
      show ?thesis
      proof (cases s)
        case Nil
        with eq show ?thesis by simp
      next
        case (Cons c cs)
        with eq have "re_sub r [] s = c # re_sub r [] cs" by simp
        moreover have "subseq (re_sub r [] cs) cs" by (rule less) (simp add: Cons)
        ultimately show ?thesis by (simp add: Cons)
      qed
    qed
  qed
qed




















section \<open>Idempotence of the normaliser\<close>




section \<open>The featuring clause in parentheses\<close>

text \<open>
  C5, as the specification has it, fails: the clause is removed from its opening
  parenthesis on, and the space before the parenthesis stays.
\<close>

theorem featuring_clause_differs:
  "simplify drop_table ''Song (feat. X)'' \<noteq> simplify drop_table ''Song''"
proof -
  have "simplify drop_table ''Song (feat. X)'' = ''song ''" by code_simp
  moreover have "simplify drop_table ''Song'' = ''song''" by code_simp
  ultimately show ?thesis by simp
qed

text \<open>
  C5, amended. Whatever the transliteration tables, the normal form of
  \<^verbatim>\<open>"Song (feat. X)"\<close> is the normal form of \<^verbatim>\<open>"Song"\<close> followed by one space.
\<close>

theorem featuring_clause_stripped:
  "simplify tbl ''Song (feat. X)'' = simplify tbl ''Song'' @ '' ''"
proof -
  have "simplify tbl ''Song (feat. X)'' = ''song ''" by code_simp
  moreover have "simplify tbl ''Song'' = ''song''" by code_simp
  ultimately show ?thesis by simp
qed

section \<open>The credit clause without closing parenthesis\<close>




section \<open>The letters ft inside a word\<close>

text \<open>
  C10, as the specification has it, fails. In \<^verbatim>\<open>"ftmixed"\<close> the letters \<^verbatim>\<open>ft\<close> are followed by
  further characters and no parenthesis, but the edition word is removed before the credit
  pattern runs, so nothing follows \<^verbatim>\<open>ft\<close> any more and it stays. In \<^verbatim>\<open>soft\<close>, newline,
  \<^verbatim>\<open>rock\<close> the character after \<^verbatim>\<open>ft\<close> is a newline, which \<^verbatim>\<open>.\<close> does not match.
\<close>

theorem ft_not_always_cut:
  "simplify drop_table ''ftmixed'' = ''ft''
   \<and> simplify drop_table (''soft'' @ [CHR 0x0A] @ ''rock'') = ''softrock''"
  by code_simp

text \<open>
  C10, amended. When the text that reaches the credit pattern (transliterated, lowercased,
  join markers and edition words removed) holds \<^verbatim>\<open>ft\<close> followed by one more character, and
  neither a closing parenthesis nor a newline from that character on, nothing from that
  occurrence on is kept: the result is made of characters before it.
\<close>

theorem ft_cuts_to_end:
  assumes "pre_credit tbl s = pre @ ''ft'' @ c # rest"
    and "CHR '')'' \<notin> set (c # rest)" and "CHR 0x0A \<notin> set (c # rest)"
  shows "subseq (simplify tbl s) pre"
proof -
  define m where "m = ''ft'' @ c # rest"
  have "credit_here m" by (simp add: m_def credit_here_def)
  moreover from assms(2) have "CHR '')'' \<notin> set m" by (simp add: m_def)
  moreover from assms(3) have "CHR 0x0A \<notin> set m" by (simp add: m_def)
  ultimately have "subseq (re_sub rx_feat [] (pre @ m)) pre" by (rule cut_tail)
  moreover have "subseq (simplify tbl s) (re_sub rx_feat [] (pre @ m))"
    unfolding simplify_steps assms(1) m_def by (rule re_sub_subseq)
  ultimately show ?thesis by (metis subseq_order.trans)
qed

text \<open>The amended C10 at \<^verbatim>\<open>"After Party"\<close>, of which only \<^verbatim>\<open>a\<close> is kept.\<close>

theorem ft_cuts_to_end_witness:
  "pre_credit drop_table ''After Party'' = ''a'' @ ''ft'' @ CHR ''e'' # ''r party''
   \<and> subseq (simplify drop_table ''After Party'') ''a''"
proof -
  have q: "pre_credit drop_table ''After Party'' = ''a'' @ ''ft'' @ CHR ''e'' # ''r party''"
    by code_simp
  from q ft_cuts_to_end [OF q] show ?thesis by simp
qed

section \<open>The search query\<close>

text \<open>
  C7. The query is the normalised title when that is longer than 25 characters; when
  it has at most 25 characters and the track has a first artist, it is the normalised
  name of that artist, a space and the normalised title. A track titled \<^verbatim>\<open>"Yes"\<close> gets
  the query of its first artist's normalised name followed by \<^verbatim>\<open>" yes"\<close>.
\<close>

theorem search_query_shape:
  "(25 < length (simplify (translit lib) (sp_name s)) \<longrightarrow>
      tidal_search_query lib s = Inr (simplify (translit lib) (sp_name s)))
   \<and> (length (simplify (translit lib) (sp_name s)) \<le> 25 \<longrightarrow> sp_artists s = a # rest \<longrightarrow>
      tidal_search_query lib s
        = Inr (simplify (translit lib) a @ '' '' @ simplify (translit lib) (sp_name s)))
   \<and> (sp_name s = ''Yes'' \<longrightarrow> sp_artists s = a # rest \<longrightarrow>
      tidal_search_query lib s = Inr (simplify (translit lib) a @ '' yes''))"
proof -
  have yes: "simplify (translit lib) ''Yes'' = ''yes''" by code_simp
  show ?thesis
    by (auto simp: tidal_search_query_def Let_def yes)
qed

theorem search_query_shape_witness:
  "tidal_search_query exact_lib yes_track = Inr ''ab yes''
   \<and> tidal_search_query exact_lib long_track = Inr ''the long and winding road goes on''"
proof -
  have y: "sp_name yes_track = ''Yes''" "sp_artists yes_track = [''Ab'']"
    by (simp_all add: yes_track_def)
  have a: "simplify (translit exact_lib) ''Ab'' = ''ab''" by code_simp
  have l: "simplify (translit exact_lib) (sp_name long_track) = ''the long and winding road goes on''"
    by code_simp
  then have n: "25 < length (simplify (translit exact_lib) (sp_name long_track))" by simp
  from search_query_shape [of exact_lib yes_track "''Ab''" "[]"] y a
    search_query_shape [of exact_lib long_track] n l
  show ?thesis by simp
qed

section \<open>Facts about the worker pool and the sync\<close>

text \<open>
  The slots after the tasks of a schedule have finished: the slot of every finished task
  that returned holds its result, and an error is recorded exactly when a finished task
  raised.
\<close>

lemma pool_step_length:
  "pool_step f xs j (slots0, err0) = (s1, e1) \<Longrightarrow> length s1 = length slots0"
  by (auto simp: pool_step_def split: if_splits sum.splits)

lemma pool_step_slot:
  assumes "pool_step f xs j (slots0, err0) = (s1, e1)" "length slots0 = length xs" "i < length xs"
  shows "s1 ! i = (if i = j then (case f (xs ! i) of Inr v \<Rightarrow> v | Inl e \<Rightarrow> slots0 ! i) else slots0 ! i)"
  using assms by (auto simp: pool_step_def split: if_splits sum.splits)

lemma pool_step_error:
  assumes "pool_step f xs j (slots0, err0) = (s1, e1)"
  shows "e1 = None \<longleftrightarrow> err0 = None \<and> (j < length xs \<longrightarrow> (\<exists>v. f (xs ! j) = Inr v))"
  using assms by (auto simp: pool_step_def split: if_splits sum.splits option.splits)

lemma pool_fold:
  assumes "length slots0 = length xs"
    and "fold (pool_step f xs) sched (slots0, err0) = (slots, err)"
  shows "length slots = length xs
     \<and> (\<forall>i<length xs. slots ! i =
           (if i \<in> set sched then (case f (xs ! i) of Inr v \<Rightarrow> v | Inl e \<Rightarrow> slots0 ! i)
            else slots0 ! i))
     \<and> (err = None \<longleftrightarrow>
           err0 = None \<and> (\<forall>i\<in>set sched. i < length xs \<longrightarrow> (\<exists>v. f (xs ! i) = Inr v)))"
  using assms
proof (induction sched arbitrary: slots0 err0)
  case Nil
  then show ?case by simp
next
  case (Cons j js)
  obtain s1 e1 where st: "pool_step f xs j (slots0, err0) = (s1, e1)"
    by (cases "pool_step f xs j (slots0, err0)") auto
  with Cons.prems(2) have fo: "fold (pool_step f xs) js (s1, e1) = (slots, err)" by simp
  from pool_step_length [OF st] Cons.prems(1) have len1: "length s1 = length xs" by simp
  note IH = Cons.IH [OF len1 fo]
  note sl = pool_step_slot [OF st Cons.prems(1)]
  note er = pool_step_error [OF st]
  from IH have "length slots = length xs" by simp
  moreover have "\<forall>i<length xs. slots ! i =
           (if i \<in> set (j # js) then (case f (xs ! i) of Inr v \<Rightarrow> v | Inl e \<Rightarrow> slots0 ! i)
            else slots0 ! i)"
  proof (intro allI impI)
    fix i assume i: "i < length xs"
    from IH i have "slots ! i =
        (if i \<in> set js then (case f (xs ! i) of Inr v \<Rightarrow> v | Inl e \<Rightarrow> s1 ! i) else s1 ! i)"
      by simp
    with sl [OF i] show "slots ! i =
           (if i \<in> set (j # js) then (case f (xs ! i) of Inr v \<Rightarrow> v | Inl e \<Rightarrow> slots0 ! i)
            else slots0 ! i)"
      by (auto split: sum.splits)
  qed
  moreover from IH have "err = None \<longleftrightarrow>
           e1 = None \<and> (\<forall>i\<in>set js. i < length xs \<longrightarrow> (\<exists>v. f (xs ! i) = Inr v))" by simp
  with er have "err = None \<longleftrightarrow>
           err0 = None \<and> (\<forall>i\<in>set (j # js). i < length xs \<longrightarrow> (\<exists>v. f (xs ! i) = Inr v))"
    by auto
  ultimately show ?case by simp
qed

lemma pool_map_length: "pool_map f xs sched = Inr slots \<Longrightarrow> length slots = length xs"
proof -
  assume a: "pool_map f xs sched = Inr slots"
  obtain s e where fo: "fold (pool_step f xs) sched (replicate (length xs) None, None) = (s, e)"
    by (cases "fold (pool_step f xs) sched (replicate (length xs) None, None)") auto
  from pool_fold [OF length_replicate fo] have "length s = length xs" by blast
  with a fo show ?thesis by (auto simp: pool_map_def split: option.splits)
qed

lemma pool_map_iff:
  assumes "set sched = {0..<length xs}"
  shows "(pool_map f xs sched = Inr slots)
     = (length slots = length xs \<and> (\<forall>i<length xs. f (xs ! i) = Inr (slots ! i)))"
proof -
  obtain s e where fo: "fold (pool_step f xs) sched (replicate (length xs) None, None) = (s, e)"
    by (cases "fold (pool_step f xs) sched (replicate (length xs) None, None)") auto
  note pf = pool_fold [OF length_replicate fo]
  from pf have len: "length s = length xs" by blast
  from pf have er: "e = None \<longleftrightarrow> (\<forall>i\<in>set sched. i < length xs \<longrightarrow> (\<exists>v. f (xs ! i) = Inr v))"
    by simp
  have sl': "s ! i = (case f (xs ! i) of Inr v \<Rightarrow> v | Inl e \<Rightarrow> None)" if i: "i < length xs" for i
  proof -
    from i assms have "i \<in> set sched" by simp
    with pf i have "s ! i = (case f (xs ! i) of Inr v \<Rightarrow> v | Inl e \<Rightarrow> replicate (length xs) None ! i)"
      by simp
    with i show ?thesis by (simp split: sum.splits)
  qed
  from assms er have er': "e = None \<longleftrightarrow> (\<forall>i<length xs. \<exists>v. f (xs ! i) = Inr v)" by auto
  have pm: "pool_map f xs sched = (case e of None \<Rightarrow> Inr s | Some x \<Rightarrow> Inl x)"
    by (simp add: pool_map_def fo)
  show ?thesis
  proof
    assume "pool_map f xs sched = Inr slots"
    with pm have e: "e = None" and s: "s = slots" by (auto split: option.splits)
    have "\<forall>i<length xs. f (xs ! i) = Inr (slots ! i)"
    proof (intro allI impI)
      fix i assume i: "i < length xs"
      with e er' obtain v where v: "f (xs ! i) = Inr v" by blast
      with sl' [OF i] show "f (xs ! i) = Inr (slots ! i)" by (simp add: s)
    qed
    with len s show "length slots = length xs \<and> (\<forall>i<length xs. f (xs ! i) = Inr (slots ! i))"
      by simp
  next
    assume r: "length slots = length xs \<and> (\<forall>i<length xs. f (xs ! i) = Inr (slots ! i))"
    with er' have e: "e = None" by blast
    have "s = slots"
    proof (rule nth_equalityI)
      show "length s = length slots" using len r by simp
    next
      fix i assume "i < length s"
      with len have i: "i < length xs" by simp
      with r have "f (xs ! i) = Inr (slots ! i)" by blast
      with sl' [OF i] show "s ! i = slots ! i" by simp
    qed
    with pm e show "pool_map f xs sched = Inr slots" by simp
  qed
qed

lemma pool_map_raises:
  assumes "set sched = {0..<length xs}" "i < length xs" "f (xs ! i) = Inl e"
  shows "\<exists>e'. pool_map f xs sched = Inl e'"
proof (cases "pool_map f xs sched")
  case (Inl e')
  then show ?thesis by blast
next
  case (Inr slots)
  with pool_map_iff [OF assms(1), of f slots] assms(2,3) show ?thesis by auto
qed

lemma rebuild:
  "length res = n + length rs \<Longrightarrow>
   fold (\<lambda>(index, result) results. results[index := result]) (enumerate n rs) res = take n res @ rs"
proof (induction rs arbitrary: n res)
  case Nil
  then show ?case by simp
next
  case (Cons r rs)
  from Cons.prems have n: "n < length res" by simp
  from Cons.prems have "length (res[n := r]) = Suc n + length rs" by simp
  from Cons.IH [OF this]
  have "fold (\<lambda>(index, result) results. results[index := result]) (enumerate (Suc n) rs) (res[n := r])
      = take (Suc n) (res[n := r]) @ rs" .
  also have "take (Suc n) (res[n := r]) = take n res @ [r]"
    using n by (simp add: take_Suc_conv_app_nth)
  finally show ?case by simp
qed

lemma call_async_pool:
  "call_async lib tidal_session sched spotify_tracks
     = pool_map (tidal_search lib tidal_session) spotify_tracks sched"
proof (cases "pool_map (tidal_search lib tidal_session) spotify_tracks sched")
  case (Inl e)
  then show ?thesis by (simp add: call_async_def)
next
  case (Inr mapped)
  from pool_map_length [OF Inr] have len: "length mapped = length spotify_tracks" .
  have "fold (\<lambda>(index, result) results. results[index := result]) (enumerate 0 mapped)
      (replicate (length spotify_tracks) None) = mapped"
    using rebuild [of "replicate (length spotify_tracks) None" 0 mapped] len by simp
  with Inr show ?thesis by (simp add: call_async_def)
qed



text \<open>The sample searches, evaluated.\<close>

lemma two_pages_tracks: "get_tracks_from_spotify_playlist two_pages = [yes_track, no_track]"
  by (simp add: two_pages_def List.map_filter_simps)

lemma schedule_swapped: "schedule (length [yes_track, no_track]) [1, 0]"
  by (auto simp: schedule_def)

lemma yes_query: "tidal_search_query exact_lib yes_track = Inr ''ab yes''"
proof -
  have a: "simplify (translit exact_lib) ''Ab'' = ''ab''" by code_simp
  have n: "simplify (translit exact_lib) ''Yes'' = ''yes''" by code_simp
  show ?thesis by (simp add: tidal_search_query_def yes_track_def a n)
qed

lemma no_query: "tidal_search_query exact_lib no_track = Inr ''cd no''"
proof -
  have a: "simplify (translit exact_lib) ''Cd'' = ''cd''" by code_simp
  have n: "simplify (translit exact_lib) ''No'' = ''no''" by code_simp
  show ?thesis by (simp add: tidal_search_query_def no_track_def a n)
qed

lemma yes_match: "match exact_lib yes_other_album yes_track"
proof -
  have "name_match exact_lib yes_other_album yes_track"
    and "artist_match exact_lib yes_other_album yes_track"
    and "duration_match exact_lib yes_other_album yes_track 2"
    and "\<not> album_match exact_lib yes_other_album yes_track"
    by code_simp+
  then show ?thesis by (simp add: match_def)
qed

lemma late_no_match: "\<not> match exact_lib yes_other_album_late yes_track"
proof -
  have "name_match exact_lib yes_other_album_late yes_track"
    and "artist_match exact_lib yes_other_album_late yes_track"
    and "\<not> duration_match exact_lib yes_other_album_late yes_track 2"
    and "\<not> album_match exact_lib yes_other_album_late yes_track"
    by code_simp+
  then show ?thesis by (simp add: match_def)
qed

lemma catalogue_yes: "tidal_search exact_lib catalogue yes_track = Inr (Some yes_other_album)"
  by (simp add: tidal_search_def yes_query catalogue_def yes_match late_no_match)

lemma catalogue_no: "tidal_search exact_lib catalogue no_track = Inr None"
  by (simp add: tidal_search_def no_query catalogue_def)

lemma flaky_yes: "tidal_search exact_lib flaky_catalogue yes_track = Inr (Some yes_other_album)"
  by (simp add: tidal_search_def yes_query flaky_catalogue_def catalogue_def yes_match late_no_match)

lemma flaky_no: "tidal_search exact_lib flaky_catalogue no_track = Inl SearchFailed"
  by (simp add: tidal_search_def no_query flaky_catalogue_def)

lemma catalogue_both:
  "\<forall>i<length [Some yes_other_album, None].
     tidal_search exact_lib catalogue ([yes_track, no_track] ! i) = Inr ([Some yes_other_album, None] ! i)"
proof (intro allI impI)
  fix i :: nat
  assume "i < length [Some yes_other_album, None]"
  then have "i = 0 \<or> i = 1" by auto
  then show "tidal_search exact_lib catalogue ([yes_track, no_track] ! i)
      = Inr ([Some yes_other_album, None] ! i)"
    using catalogue_yes catalogue_no by auto
qed

section \<open>The outcomes keep the positions of the tracks\<close>

text \<open>
  C4. Whatever the order in which the tasks finish, \<open>call_async\<close> returns a list exactly
  when every search returned, and the list it returns has the length of the track list and
  holds at position \<open>i\<close> the outcome of \<open>tidal_search\<close> on track \<open>i\<close>.
\<close>

theorem outcomes_aligned:
  assumes "schedule (length spotify_tracks) sched"
  shows "(call_async lib tidal_session sched spotify_tracks = Inr outcomes)
     = (length outcomes = length spotify_tracks
        \<and> (\<forall>i<length spotify_tracks.
              tidal_search lib tidal_session (spotify_tracks ! i) = Inr (outcomes ! i)))"
proof -
  from assms have "set sched = {0..<length spotify_tracks}" by (simp add: schedule_def)
  from pool_map_iff [OF this] show ?thesis by (simp only: call_async_pool)
qed

text \<open>
  C4 at two tracks whose tasks finish in reverse order: the outcomes are in the order of
  the tracks.
\<close>

theorem outcomes_aligned_witness:
  "schedule (length [yes_track, no_track]) [1, 0]
   \<and> call_async exact_lib catalogue [1, 0] [yes_track, no_track] = Inr [Some yes_other_album, None]"
proof -
  from outcomes_aligned [OF schedule_swapped, of exact_lib catalogue "[Some yes_other_album, None]"]
    catalogue_both
  have "call_async exact_lib catalogue [1, 0] [yes_track, no_track] = Inr [Some yes_other_album, None]"
    by simp
  with schedule_swapped show ?thesis by blast
qed

section \<open>A search that raises\<close>

text \<open>
  C9, as the specification has it, fails: \<^verbatim>\<open>tidal_search\<close> catches nothing and \<^verbatim>\<open>Pool.map\<close>
  raises what a task raised. With a search that raises for the second track only,
  \<open>call_async\<close> raises, no outcome is returned for the first track either, and
  \<open>sync_playlist\<close> ends with the exception before it prints or writes anything.
\<close>

theorem failing_search_aborts:
  "call_async exact_lib flaky_catalogue [0, 1] (get_tracks_from_spotify_playlist two_pages)
     = Inl SearchFailed
   \<and> sync_playlist exact_lib flaky_catalogue [0, 1] held_playlists two_pages 7
     = ([], Inl SearchFailed)"
proof -
  have c: "call_async exact_lib flaky_catalogue [0, 1] (get_tracks_from_spotify_playlist two_pages)
     = Inl SearchFailed"
    by (simp add: call_async_pool pool_map_def pool_step_def two_pages_tracks flaky_yes flaky_no)
  then show ?thesis by (simp add: sync_playlist_def)
qed

text \<open>
  C9, amended. When the search call for the query of one track of the playlist raises,
  \<open>call_async\<close> raises whatever the order in which the tasks finish, and \<open>sync_playlist\<close>
  ends with that exception: nothing is reported and the destination is not written.
\<close>

theorem failing_search_raises:
  assumes "schedule (length (get_tracks_from_spotify_playlist spotify_playlist)) sched"
    and "spotify_track \<in> set (get_tracks_from_spotify_playlist spotify_playlist)"
    and "tidal_search_query lib spotify_track = Inr query"
    and "tidal_session query = Inl e"
  shows "\<exists>e'. call_async lib tidal_session sched (get_tracks_from_spotify_playlist spotify_playlist)
               = Inl e'
             \<and> sync_playlist lib tidal_session sched session spotify_playlist tidal_playlist_id
               = ([], Inl e')"
proof -
  define tracks where "tracks = get_tracks_from_spotify_playlist spotify_playlist"
  from assms(2) obtain i where i: "i < length tracks" "tracks ! i = spotify_track"
    by (auto simp: tracks_def in_set_conv_nth)
  from assms(3,4) have "tidal_search lib tidal_session (tracks ! i) = Inl e"
    by (simp add: tidal_search_def i(2))
  moreover from assms(1) have "set sched = {0..<length tracks}" by (simp add: schedule_def tracks_def)
  ultimately obtain e' where "pool_map (tidal_search lib tidal_session) tracks sched = Inl e'"
    using pool_map_raises [of sched tracks i "tidal_search lib tidal_session" e] i(1) by blast
  then have "call_async lib tidal_session sched tracks = Inl e'" by (simp only: call_async_pool)
  then show ?thesis by (auto simp: sync_playlist_def tracks_def)
qed

text \<open>The amended C9 at the catalogue whose search raises for the second track.\<close>

theorem failing_search_raises_witness:
  "schedule (length (get_tracks_from_spotify_playlist two_pages)) [1, 0]
   \<and> no_track \<in> set (get_tracks_from_spotify_playlist two_pages)
   \<and> tidal_search_query exact_lib no_track = Inr ''cd no''
   \<and> flaky_catalogue ''cd no'' = Inl SearchFailed
   \<and> (\<exists>e'. call_async exact_lib flaky_catalogue [1, 0] (get_tracks_from_spotify_playlist two_pages)
               = Inl e'
             \<and> sync_playlist exact_lib flaky_catalogue [1, 0] held_playlists two_pages 7
               = ([], Inl e'))"
proof -
  have s: "schedule (length (get_tracks_from_spotify_playlist two_pages)) [1, 0]"
    using schedule_swapped by (simp only: two_pages_tracks)
  have t: "no_track \<in> set (get_tracks_from_spotify_playlist two_pages)"
    by (simp add: two_pages_tracks)
  note q = no_query
  have f: "flaky_catalogue ''cd no'' = Inl SearchFailed" by (simp add: flaky_catalogue_def)
  from s t q f
    failing_search_raises [where tidal_session = flaky_catalogue and session = held_playlists
      and tidal_playlist_id = 7, OF s t q f]
  show ?thesis by blast
qed

section \<open>The write to the destination playlist\<close>




end
